theory Spec2Isabelle
  imports Main "HOL-Library.Sublist"
begin

section \<open>The irqbalance probe: data model\<close>

text \<open>
  The program is one Python script, \<^verbatim>\<open>pasv-test-irqbalance.py\<close>. Python strings are
  modelled as \<^typ>\<open>string\<close> over ASCII text (a marker is represented by the bytes of
  its UTF-8 encoding, so \<^verbatim>\<open>bytes(marker, "utf-8")\<close> is the identity), Python's
  unbounded integers as \<^typ>\<open>int\<close>, and an exception that leaves a function as the
  left summand of a sum type.
\<close>

datatype py_error = ValueError | IndexError | TypeError | NameError | OSError

text \<open>
  The dictionary returned by \<^verbatim>\<open>get_irq_statistics\<close> is an association list in
  insertion order, as Python iterates it: assigning to a key that is present replaces
  the value in place, assigning to a new key appends.
\<close>

type_synonym irq_table = "(string \<times> int list) list"

fun dict_set :: "irq_table \<Rightarrow> string \<Rightarrow> int list \<Rightarrow> irq_table" where
  "dict_set [] k v = [(k, v)]"
| "dict_set ((k', v') # kvs) k v =
     (if k' = k then (k, v) # kvs else (k', v') # dict_set kvs k v)"

definition OK_ICON :: string where "OK_ICON = ''[ OK ] ''"
definition FAIL_ICON :: string where "FAIL_ICON = ''[FAIL] ''"
definition INFO_ICON :: string where "INFO_ICON = ''[INFO] ''"
definition SKIP_ICON :: string where "SKIP_ICON = ''[SKIP] ''"

definition IRQBALANCE_PATH :: string where
  "IRQBALANCE_PATH = ''/usr/sbin/irqbalance''"

definition MARKERS :: "string list" where
  "MARKERS = [''libcap-ng.so.0'', ''libnuma.so.1'', ''/sys/devices/system/cpu'',
     ''%s/topology/core_siblings'', ''/proc/interrupts'', ''/proc/irq/%i/node'',
     ''g_main_loop_run'', ''g_list_append'', ''irqbalance'']"

section \<open>Library functions of Python used by the script\<close>

text \<open>The ASCII characters that \<^verbatim>\<open>str.split()\<close> and \<^verbatim>\<open>str.strip()\<close> treat
  as whitespace: codes 9 to 13 and 28 to 32.\<close>

definition is_space :: "char \<Rightarrow> bool" where
  "is_space c = (c = CHR 0x09 \<or> c = CHR 0x0A \<or> c = CHR 0x0B \<or> c = CHR 0x0C \<or> c = CHR 0x0D
     \<or> c = CHR 0x1C \<or> c = CHR 0x1D \<or> c = CHR 0x1E \<or> c = CHR 0x1F \<or> c = CHR 0x20)"

text \<open>\<^verbatim>\<open>s.split()\<close>: the maximal runs of non-whitespace characters, in order.\<close>

fun py_split_aux :: "string \<Rightarrow> string \<Rightarrow> string list" where
  "py_split_aux cur [] = (if cur = [] then [] else [cur])"
| "py_split_aux cur (c # cs) =
     (if is_space c then (if cur = [] then py_split_aux [] cs else cur # py_split_aux [] cs)
      else py_split_aux (cur @ [c]) cs)"

definition py_split :: "string \<Rightarrow> string list" where
  "py_split s = py_split_aux [] s"

text \<open>\<^verbatim>\<open>s.strip(chars)\<close> removes the characters satisfying \<open>P\<close> from both ends.\<close>

definition strip_where :: "(char \<Rightarrow> bool) \<Rightarrow> string \<Rightarrow> string" where
  "strip_where P s = rev (dropWhile P (rev (dropWhile P s)))"

definition py_strip :: "string \<Rightarrow> string" where
  "py_strip s = strip_where is_space s"

definition strip_colon :: "string \<Rightarrow> string" where
  "strip_colon s = strip_where (\<lambda>c. c = CHR '':'') s"

text \<open>
  \<^verbatim>\<open>int(x)\<close> on a string, base 10: surrounding whitespace is dropped, one sign
  \<^verbatim>\<open>+\<close> or \<^verbatim>\<open>-\<close> may lead, then come decimal digits, where a single underscore
  may stand between two digits. Anything else raises \<^verbatim>\<open>ValueError\<close>, and so does a
  string of more digits than the interpreter's limit (4300 unless configured). On ASCII
  text \<^verbatim>\<open>int\<close> drops the codes 9 to 13 and 32 only.
\<close>

definition is_int_space :: "char \<Rightarrow> bool" where
  "is_int_space c = (c = CHR 0x09 \<or> c = CHR 0x0A \<or> c = CHR 0x0B \<or> c = CHR 0x0C
     \<or> c = CHR 0x0D \<or> c = CHR 0x20)"

definition max_str_digits :: nat where
  "max_str_digits = 4300"

definition is_digit :: "char \<Rightarrow> bool" where
  "is_digit c = (c = CHR ''0'' \<or> c = CHR ''1'' \<or> c = CHR ''2'' \<or> c = CHR ''3'' \<or> c = CHR ''4''
     \<or> c = CHR ''5'' \<or> c = CHR ''6'' \<or> c = CHR ''7'' \<or> c = CHR ''8'' \<or> c = CHR ''9'')"

definition digit_val :: "char \<Rightarrow> nat" where
  "digit_val c = of_char c - 48"

text \<open>\<open>int_digits acc us cs\<close>: the digits read so far have value \<open>acc\<close>; \<open>us\<close> says that
  the character just read was an underscore, so that a digit must follow.\<close>

fun int_digits :: "nat \<Rightarrow> bool \<Rightarrow> string \<Rightarrow> nat option" where
  "int_digits acc us [] = (if us then None else Some acc)"
| "int_digits acc us (c # cs) =
     (if is_digit c then int_digits (10 * acc + digit_val c) False cs
      else if c = CHR ''_'' \<and> \<not> us then int_digits acc True cs
      else None)"

definition int_unsigned :: "string \<Rightarrow> nat option" where
  "int_unsigned s = (case s of [] \<Rightarrow> None
     | c # cs \<Rightarrow> if is_digit c then int_digits (digit_val c) False cs else None)"

definition py_int :: "string \<Rightarrow> py_error + int" where
  "py_int x =
     (let s = strip_where is_int_space x in
      case s of
        [] \<Rightarrow> Inl ValueError
      | c # cs \<Rightarrow>
          if max_str_digits < length (filter is_digit s) then Inl ValueError
          else if c = CHR ''-'' then
            (case int_unsigned cs of None \<Rightarrow> Inl ValueError | Some n \<Rightarrow> Inr (- int n))
          else if c = CHR ''+'' then
            (case int_unsigned cs of None \<Rightarrow> Inl ValueError | Some n \<Rightarrow> Inr (int n))
          else
            (case int_unsigned s of None \<Rightarrow> Inl ValueError | Some n \<Rightarrow> Inr (int n)))"

text \<open>The list comprehension \<^verbatim>\<open>[ int(x) for x in xs ]\<close>: left to right, the first
  failure is raised.\<close>

fun int_list :: "string list \<Rightarrow> py_error + int list" where
  "int_list [] = Inr []"
| "int_list (x # xs) =
     (case py_int x of
        Inl e \<Rightarrow> Inl e
      | Inr n \<Rightarrow> (case int_list xs of Inl e \<Rightarrow> Inl e | Inr ns \<Rightarrow> Inr (n # ns)))"

text \<open>The slice \<^verbatim>\<open>xs[i:j]\<close> for bounds that are not negative.\<close>

definition slice :: "nat \<Rightarrow> nat \<Rightarrow> 'a list \<Rightarrow> 'a list" where
  "slice i j xs = drop i (take j xs)"

text \<open>
  An open text file is the list of the lines not read yet. \<^verbatim>\<open>f.readline()\<close> returns
  the next line and advances; at the end of the file it returns the empty string.
\<close>

type_synonym text_file = "string list"

definition readline :: "text_file \<Rightarrow> string \<times> text_file" where
  "readline f = (case f of [] \<Rightarrow> ([], []) | l # ls \<Rightarrow> (l, ls))"

section \<open>The subroutines of the script\<close>

subsection \<open>\<^verbatim>\<open>read_one_line\<close>\<close>

text \<open>
  \<^verbatim>\<open>
  def read_one_line(path):
      line = ''
      try:
          with io.open(path, "r") as f:
              line = f.readline().strip()
          return line
      except e:
          return None
  \<close>
  The file system gives, for a path, either the error that opening or reading raises or
  the lines of the file. The handler is \<^verbatim>\<open>except e\<close>, and \<^verbatim>\<open>e\<close> is a name the module
  never binds: when an exception reaches the handler, evaluating \<^verbatim>\<open>e\<close> raises
  \<^verbatim>\<open>NameError\<close>, which leaves the function. The result \<open>None\<close> stands for Python's
  \<^verbatim>\<open>None\<close>.
\<close>

type_synonym file_system = "string \<Rightarrow> py_error + text_file"

definition read_one_line :: "file_system \<Rightarrow> string \<Rightarrow> py_error + string option" where
  "read_one_line fs path =
     (case fs path of
        Inr f \<Rightarrow> Inr (Some (py_strip (fst (readline f))))
      | Inl err \<Rightarrow> Inl NameError)"

subsection \<open>\<^verbatim>\<open>get_irq_statistics\<close>\<close>

text \<open>
  The loop \<^verbatim>\<open>while f:\<close> of \<^verbatim>\<open>get_irq_statistics\<close> (a file object is always true).
  It returns the table and the file as the loop leaves it, or the \<^verbatim>\<open>ValueError\<close> of
  \<^verbatim>\<open>int\<close>.
\<close>

function parse_loop :: "nat \<Rightarrow> irq_table \<Rightarrow> text_file \<Rightarrow> py_error + (irq_table \<times> text_file)" where
  "parse_loop cpu_count result f =
     (let (line, f') = readline f;
          columns = py_split line
      in if length columns \<le> 1 then Inr (result, f')
         else
           let irq_name = strip_colon (hd columns)
           in if irq_name = ''ERR'' \<or> irq_name = ''MIS'' then parse_loop cpu_count result f'
              else
                (case int_list (slice 1 cpu_count columns) of
                   Inl e \<Rightarrow> Inl e
                 | Inr irqs_per_cpu \<Rightarrow>
                     parse_loop cpu_count (dict_set result irq_name irqs_per_cpu) f'))"
  by pat_completeness auto
termination
proof (relation "measure (\<lambda>(cpu_count, result, f). length f)")
  show "wf (measure (\<lambda>(cpu_count, result, f). length f))" by simp
next
  fix cpu_count :: nat and result :: irq_table and f f' :: text_file
    and x line columns irq_name
  assume "x = readline f" "(line, f') = x" "columns = py_split line"
    "\<not> length columns \<le> 1"
  then show "((cpu_count, result, f'), cpu_count, result, f)
      \<in> measure (\<lambda>(cpu_count, result, f). length f)"
    by (cases f) (auto simp: readline_def py_split_def)
next
  fix cpu_count :: nat and result :: irq_table and f f' :: text_file
    and x line columns irq_name x2
  assume "x = readline f" "(line, f') = x" "columns = py_split line"
    "\<not> length columns \<le> 1"
  then show "((cpu_count, dict_set result irq_name x2, f'), cpu_count, result, f)
      \<in> measure (\<lambda>(cpu_count, result, f). length f)"
    by (cases f) (auto simp: readline_def py_split_def)
qed

declare parse_loop.simps [simp del]

text \<open>
  \<^verbatim>\<open>get_irq_statistics\<close>, applied to the lines of \<^verbatim>\<open>/proc/interrupts\<close>: the first
  line is the header, its number of labels is \<^verbatim>\<open>cpu_count\<close>.
\<close>

definition get_irq_statistics :: "text_file \<Rightarrow> py_error + irq_table" where
  "get_irq_statistics f =
     (let (l, f1) = readline f;
          cpu_list = py_split l;
          cpu_count = length cpu_list
      in case parse_loop cpu_count [] f1 of
           Inl e \<Rightarrow> Inl e
         | Inr (result, f2) \<Rightarrow> Inr result)"

text \<open>The function opens \<^verbatim>\<open>/proc/interrupts\<close> itself; an error of \<^verbatim>\<open>io.open\<close>
  leaves it as it is.\<close>

definition get_irq_statistics_in :: "file_system \<Rightarrow> py_error + irq_table" where
  "get_irq_statistics_in fs =
     (case fs ''/proc/interrupts'' of
        Inl e \<Rightarrow> Inl e
      | Inr f \<Rightarrow> get_irq_statistics f)"

subsection \<open>\<^verbatim>\<open>count_nonzero_values\<close> and \<^verbatim>\<open>get_nonzero_index\<close>\<close>

definition count_nonzero_values :: "int list \<Rightarrow> nat" where
  "count_nonzero_values vec = fold (\<lambda>x count. if x \<noteq> 0 then count + 1 else count) vec 0"

text \<open>\<^verbatim>\<open>get_nonzero_index\<close> returns inside the loop at the first nonzero entry; when the
  loop ends the function falls off its end and returns \<^verbatim>\<open>None\<close>.\<close>

fun get_nonzero_index_from :: "nat \<Rightarrow> int list \<Rightarrow> nat option" where
  "get_nonzero_index_from index [] = None"
| "get_nonzero_index_from index (x # xs) =
     (if x \<noteq> 0 then Some index else get_nonzero_index_from (index + 1) xs)"

definition get_nonzero_index :: "int list \<Rightarrow> nat option" where
  "get_nonzero_index vec = get_nonzero_index_from 0 vec"

section \<open>The main part of the script\<close>

subsection \<open>The marker scan\<close>

text \<open>
  \<^verbatim>\<open>mem.find(sub)\<close> on a fresh mapping: the lowest index at which \<open>sub\<close> occurs
  in the mapped bytes, or \<open>-1\<close>.
\<close>

fun find_from :: "int \<Rightarrow> string \<Rightarrow> string \<Rightarrow> int" where
  "find_from i sub [] = (if sub = [] then i else - 1)"
| "find_from i sub (c # cs) =
     (if prefix sub (c # cs) then i else find_from (i + 1) sub cs)"

definition mmap_find :: "string \<Rightarrow> string \<Rightarrow> int" where
  "mmap_find mem sub = find_from 0 sub mem"

text \<open>The lines that the script prints about markers and about the scan.\<close>

definition marker_not_found_line :: "string \<Rightarrow> string" where
  "marker_not_found_line marker =
     FAIL_ICON @ ''marker '' @ [CHR 0x27] @ marker @ [CHR 0x27]
       @ '' not found in the irqbalance executable''"

definition marker_found_line :: "string \<Rightarrow> string" where
  "marker_found_line marker =
     OK_ICON @ ''marker '' @ [CHR 0x27] @ marker @ [CHR 0x27]
       @ '' found in the irqbalance executable''"

definition open_failed_line :: string where
  "open_failed_line = FAIL_ICON @ IRQBALANCE_PATH @ '': could not open for reading''"

definition skip_line :: string where
  "skip_line = SKIP_ICON @ ''no irqbalance executable, cannot test markers''"

text \<open>
  The loop \<^verbatim>\<open>for marker in MARKERS\<close> over the mapped bytes \<open>mem\<close>, as the list of
  the lines it prints.
\<close>

fun marker_loop :: "string list \<Rightarrow> string \<Rightarrow> string list" where
  "marker_loop [] mem = []"
| "marker_loop (marker # markers) mem =
     (if mmap_find mem marker = - 1 then marker_not_found_line marker
      else marker_found_line marker) # marker_loop markers mem"

text \<open>
  The whole step, from \<^verbatim>\<open>os.open\<close> to the \<^verbatim>\<open>else\<close> branch that prints the skip
  line. \<open>opened\<close> is what \<^verbatim>\<open>os.open\<close> does: it raises, or it returns a file descriptor;
  \<open>content\<close> is the bytes of the file. The bare \<^verbatim>\<open>except\<close> prints a line and sets
  \<^verbatim>\<open>fd = None\<close>; the test \<^verbatim>\<open>if fd\<close> is also false for the descriptor 0; and
  \<^verbatim>\<open>mmap.mmap\<close> with length 0 raises \<^verbatim>\<open>ValueError\<close> on an empty file, before
  anything is printed. The result is the list of lines printed, or the exception that
  ends the script.
\<close>

definition marker_scan :: "py_error + nat \<Rightarrow> string \<Rightarrow> string list \<Rightarrow> py_error + string list" where
  "marker_scan opened content markers =
     (case opened of
        Inl e \<Rightarrow> Inr [open_failed_line, skip_line]
      | Inr fd \<Rightarrow>
          if fd \<noteq> 0 then
            (if content = [] then Inl ValueError else Inr (marker_loop markers content))
          else Inr [skip_line])"

subsection \<open>The aggregation of exclusive interrupts\<close>

text \<open>
  \<^verbatim>\<open>
  irqs_per_cpu = [ 0 ] * cpu_count
  for irq in irqs:
      if count_nonzero_values(irqs[irq]) == 1:
          cpu_index = get_nonzero_index(irqs[irq])
          irqs_per_cpu[cpu_index] += irqs[irq][cpu_index]
  \<close>
  Here \<^verbatim>\<open>cpu_count\<close> is the global set from \<^verbatim>\<open>os.cpu_count()\<close>, not the length of
  the header. One pass of the loop body, for the count sequence \<open>vec\<close> of one key:
  indexing with \<^verbatim>\<open>None\<close> raises \<^verbatim>\<open>TypeError\<close>, indexing out of range raises
  \<^verbatim>\<open>IndexError\<close>.
\<close>

definition aggregate_step :: "int list \<Rightarrow> int list \<Rightarrow> py_error + int list" where
  "aggregate_step irqs_per_cpu vec =
     (if count_nonzero_values vec = 1 then
        (case get_nonzero_index vec of
           None \<Rightarrow> Inl TypeError
         | Some cpu_index \<Rightarrow>
             if cpu_index < length irqs_per_cpu \<and> cpu_index < length vec then
               Inr (irqs_per_cpu[cpu_index := irqs_per_cpu ! cpu_index + vec ! cpu_index])
             else Inl IndexError)
      else Inr irqs_per_cpu)"

fun aggregate_loop :: "int list \<Rightarrow> irq_table \<Rightarrow> py_error + int list" where
  "aggregate_loop irqs_per_cpu [] = Inr irqs_per_cpu"
| "aggregate_loop irqs_per_cpu ((irq, vec) # irqs) =
     (case aggregate_step irqs_per_cpu vec of
        Inl e \<Rightarrow> Inl e
      | Inr irqs_per_cpu' \<Rightarrow> aggregate_loop irqs_per_cpu' irqs)"

definition aggregate :: "nat \<Rightarrow> irq_table \<Rightarrow> py_error + int list" where
  "aggregate cpu_count irqs = aggregate_loop (replicate cpu_count 0) irqs"

text \<open>Parsing the table and then aggregating, as the end of the script does.\<close>

definition exclusive_load :: "nat \<Rightarrow> text_file \<Rightarrow> py_error + int list" where
  "exclusive_load cpu_count f =
     (case get_irq_statistics f of
        Inl e \<Rightarrow> Inl e
      | Inr irqs \<Rightarrow> aggregate cpu_count irqs)"

section \<open>Properties of the vector helpers\<close>

lemma fold_count_nonzero:
  "fold (\<lambda>x count. if x \<noteq> 0 then count + 1 else count) vec n
     = n + length (filter (\<lambda>x. x \<noteq> (0::int)) vec)"
  by (induction vec arbitrary: n) auto

lemma count_nonzero_values_filter:
  "count_nonzero_values vec = length (filter (\<lambda>x. x \<noteq> 0) vec)"
  by (simp add: count_nonzero_values_def fold_count_nonzero)

lemma get_nonzero_index_from_None:
  "get_nonzero_index_from k vec = None \<longleftrightarrow> (\<forall>x \<in> set vec. x = 0)"
  by (induction vec arbitrary: k) auto

lemma get_nonzero_index_from_Some:
  "get_nonzero_index_from k vec = Some i \<Longrightarrow>
     k \<le> i \<and> i - k < length vec \<and> vec ! (i - k) \<noteq> 0 \<and> (\<forall>j < i - k. vec ! j = 0)"
proof (induction vec arbitrary: k)
  case Nil
  then show ?case by simp
next
  case (Cons x xs)
  show ?case
  proof (cases "x = 0")
    case True
    with Cons.prems have "get_nonzero_index_from (k + 1) xs = Some i" by simp
    from Cons.IH [OF this] have ih: "k + 1 \<le> i" "i - (k + 1) < length xs"
      "xs ! (i - (k + 1)) \<noteq> 0" "\<forall>j < i - (k + 1). xs ! j = 0" by auto
    from ih(1) have eq: "i - k = Suc (i - (k + 1))" by arith
    have "\<forall>j < i - k. (x # xs) ! j = 0"
    proof (intro allI impI)
      fix j assume "j < i - k"
      then show "(x # xs) ! j = 0" using True ih(4) eq by (cases j) auto
    qed
    then show ?thesis using ih eq by auto
  next
    case False
    with Cons.prems show ?thesis by auto
  qed
qed

lemma two_nonzero_filter:
  "i < j \<Longrightarrow> j < length vec \<Longrightarrow> P (vec ! i) \<Longrightarrow> P (vec ! j) \<Longrightarrow> 2 \<le> length (filter P vec)"
proof (induction vec arbitrary: i j)
  case Nil
  then show ?case by simp
next
  case (Cons x xs)
  show ?case
  proof (cases i)
    case 0
    with Cons.prems obtain j' where j': "j = Suc j'" "j' < length xs" "P (xs ! j')"
      by (cases j) auto
    then have "xs ! j' \<in> set (filter P xs)" by simp
    then have "filter P xs \<noteq> []" by fastforce 
    then have "1 \<le> length (filter P xs)" by (cases "filter P xs") auto
    moreover have "P x" using Cons.prems 0 by simp
    ultimately show ?thesis by simp
  next
    case (Suc i')
    with Cons.prems obtain j' where j': "j = Suc j'" "i' < j'" "j' < length xs" "P (xs ! j')"
      by (cases j) auto
    have "P (xs ! i')" using Cons.prems Suc by simp
    from Cons.IH [OF j'(2) j'(3) this j'(4)] show ?thesis by simp
  qed
qed

lemma exclusive_index_unique:
  assumes "length (filter P vec) = 1" "i < length vec" "j < length vec"
    "P (vec ! i)" "P (vec ! j)"
  shows "i = j"
proof (rule ccontr)
  assume "i \<noteq> j"
  then consider "i < j" | "j < i" by arith
  then have "2 \<le> length (filter P vec)"
    using assms two_nonzero_filter [of i j vec P] two_nonzero_filter [of j i vec P] by cases auto
  with assms(1) show False by simp
qed

lemma exclusive_has_index:
  assumes "count_nonzero_values vec = 1"
  shows "\<exists>i. get_nonzero_index vec = Some i \<and> i < length vec \<and> vec ! i \<noteq> 0"
proof -
  have "filter (\<lambda>x. x \<noteq> 0) vec \<noteq> []"
    using assms by (auto simp: count_nonzero_values_filter)
  then have "\<not> (\<forall>x \<in> set vec. x = 0)" by (auto simp: filter_empty_conv)
  then obtain i where i: "get_nonzero_index_from 0 vec = Some i"
    using get_nonzero_index_from_None [of 0 vec] by auto
  from get_nonzero_index_from_Some [OF this] show ?thesis
    using i by (auto simp: get_nonzero_index_def)
qed

text \<open>
  Claim C10. For a vector with exactly one nonzero entry, that is with
  \<^verbatim>\<open>count_nonzero_values(v) == 1\<close>, \<^verbatim>\<open>get_nonzero_index(v)\<close> returns the one index
  whose entry is not zero; for a vector of zeros it returns \<^verbatim>\<open>None\<close>.
\<close>

theorem get_nonzero_index_exclusive:
  "(count_nonzero_values v = 1 \<longrightarrow>
      (\<exists>i. get_nonzero_index v = Some i \<and> i < length v \<and> v ! i \<noteq> 0
         \<and> (\<forall>j < length v. v ! j \<noteq> 0 \<longrightarrow> j = i)))
   \<and> ((\<forall>x \<in> set v. x = 0) \<longrightarrow> get_nonzero_index v = None)"
proof (intro conjI impI)
  assume c: "count_nonzero_values v = 1"
  from exclusive_has_index [OF c] obtain i where
    i: "get_nonzero_index v = Some i" "i < length v" "v ! i \<noteq> 0" by auto
  have "\<forall>j < length v. v ! j \<noteq> 0 \<longrightarrow> j = i"
    using c i exclusive_index_unique [of "\<lambda>x. x \<noteq> 0" v]
    by (auto simp: count_nonzero_values_filter)
  with i show "\<exists>i. get_nonzero_index v = Some i \<and> i < length v \<and> v ! i \<noteq> 0
         \<and> (\<forall>j < length v. v ! j \<noteq> 0 \<longrightarrow> j = i)" by blast
next
  assume "\<forall>x \<in> set v. x = 0"
  then show "get_nonzero_index v = None"
    by (simp add: get_nonzero_index_def get_nonzero_index_from_None)
qed

theorem get_nonzero_index_exclusive_witness:
  "count_nonzero_values [0, 7, 0] = 1 \<and> get_nonzero_index [0, 7, 0] = Some 1
   \<and> get_nonzero_index [0, 0] = None"
proof -
  have one: "count_nonzero_values [0, 7, 0] = 1"
    by (simp add: count_nonzero_values_def)
  have zeros: "\<forall>x \<in> set [0, 0 :: int]. x = 0" by simp
  from one get_nonzero_index_exclusive [of "[0, 7, 0]"] obtain i where
    i: "get_nonzero_index [0, 7, 0] = Some i" "i < length [0, 7, 0 :: int]"
      "[0, 7, 0 :: int] ! i \<noteq> 0"
    by blast
  have "i = 1"
  proof (rule ccontr)
    assume "i \<noteq> 1"
    with i(2) have "i = 0 \<or> i = 2" by auto
    with i(3) show False by auto
  qed
  with i(1) one zeros get_nonzero_index_exclusive [of "[0, 0]"] show ?thesis by simp
qed

section \<open>Properties of the marker scan\<close>

lemma find_from_sublist:
  "0 \<le> i \<Longrightarrow> find_from i sub mem = - 1 \<longleftrightarrow> \<not> sublist sub mem"
proof (induction mem arbitrary: i)
  case Nil
  then show ?case by auto
next
  case (Cons c cs)
  have "0 \<le> i + 1" using Cons.prems by simp
  from Cons.IH [OF this] show ?case
    using Cons.prems by (auto simp: sublist_Cons_right)
qed

lemma mmap_find_sublist: "mmap_find mem sub = - 1 \<longleftrightarrow> \<not> sublist sub mem"
  by (simp add: mmap_find_def find_from_sublist)

lemma found_line_neq_not_found_line: "marker_found_line m \<noteq> marker_not_found_line m'"
  by (simp add: marker_found_line_def marker_not_found_line_def OK_ICON_def FAIL_ICON_def)

text \<open>
  Claim C3. For every list of markers \<open>M\<close> and all mapped bytes \<open>C\<close>, the loop reports
  a marker as found exactly when the marker occurs in \<open>C\<close> as a contiguous run of
  bytes, and it prints one line for each marker, in the order of \<open>M\<close>. The two kinds of
  line are never equal. These lines are the output of the whole step when the
  executable was opened with a descriptor other than 0 and is not empty (an empty file
  cannot be mapped: \<^verbatim>\<open>mmap.mmap\<close> raises \<^verbatim>\<open>ValueError\<close> before the loop).
\<close>

theorem marker_loop_reports:
  "marker_loop M C
     = map (\<lambda>m. if (\<exists>ps ss. C = ps @ m @ ss) then marker_found_line m
                 else marker_not_found_line m) M
   \<and> marker_found_line m \<noteq> marker_not_found_line m'
   \<and> (fd \<noteq> 0 \<and> C \<noteq> [] \<longrightarrow>
        marker_scan (Inr fd) C M
          = Inr (map (\<lambda>m. if (\<exists>ps ss. C = ps @ m @ ss) then marker_found_line m
                           else marker_not_found_line m) M))"
proof -
  have loop: "marker_loop M C
     = map (\<lambda>m. if (\<exists>ps ss. C = ps @ m @ ss) then marker_found_line m
                 else marker_not_found_line m) M"
    by (induction M) (simp_all add: mmap_find_sublist sublist_def)
  have lines: "marker_found_line m \<noteq> marker_not_found_line m'"
    by (rule found_line_neq_not_found_line)
  have "marker_scan (Inr fd) C M = Inr (marker_loop M C)" if "fd \<noteq> 0 \<and> C \<noteq> []"
    using that by (simp add: marker_scan_def)
  with loop lines show ?thesis by simp
qed

theorem marker_loop_reports_witness:
  "marker_scan (Inr 3) ''xx irqbalance yy'' [''irqbalance'', ''libnuma.so.1'']
     = Inr [marker_found_line ''irqbalance'', marker_not_found_line ''libnuma.so.1'']"
proof -
  have a: "\<exists>ps ss. ''xx irqbalance yy'' = ps @ ''irqbalance'' @ ss"
    by (rule exI [of _ "''xx ''"], rule exI [of _ "'' yy''"]) simp
  have "\<not> sublist ''libnuma.so.1'' ''xx irqbalance yy''"
    by (simp add: sublist_Cons_right)
  then have b: "\<not> (\<exists>ps ss. ''xx irqbalance yy'' = ps @ ''libnuma.so.1'' @ ss)"
    by (simp add: sublist_def)
  have c: "(3::nat) \<noteq> 0 \<and> ''xx irqbalance yy'' \<noteq> []" by simp
  show ?thesis
    using marker_loop_reports [of "[''irqbalance'', ''libnuma.so.1'']" "''xx irqbalance yy''"
        _ _ 3] a b c
    by simp
qed

lemma skip_line_not_marker_line:
  "skip_line \<noteq> marker_found_line m" "skip_line \<noteq> marker_not_found_line m"
  by (simp_all add: skip_line_def marker_found_line_def marker_not_found_line_def
      OK_ICON_def FAIL_ICON_def SKIP_ICON_def)

lemma open_failed_line_not_marker_line:
  "open_failed_line \<noteq> marker_found_line m" "open_failed_line \<noteq> marker_not_found_line m"
  by (simp_all add: open_failed_line_def marker_found_line_def marker_not_found_line_def
      OK_ICON_def FAIL_ICON_def IRQBALANCE_PATH_def)

lemma skip_line_notin_marker_loop: "skip_line \<notin> set (marker_loop M C)"
  by (induction M) (auto simp: skip_line_not_marker_line)

lemma skip_prefixes:
  "prefix SKIP_ICON skip_line" "\<not> prefix SKIP_ICON open_failed_line"
  by (simp_all add: skip_line_def open_failed_line_def SKIP_ICON_def FAIL_ICON_def)

text \<open>
  Claim C7. When \<^verbatim>\<open>os.open\<close> raises, the step prints the line about the failed open
  and the skip line: exactly one line carries the SKIP tag, no line is the report of a
  marker, and the output differs from the output of every run that did open the
  executable, so also from a run that found no marker.
\<close>

theorem unreadable_executable_skipped:
  "marker_scan (Inl e) content markers = Inr [open_failed_line, skip_line]
   \<and> filter (prefix SKIP_ICON) [open_failed_line, skip_line] = [skip_line]
   \<and> (\<forall>m. marker_found_line m \<notin> set [open_failed_line, skip_line]
          \<and> marker_not_found_line m \<notin> set [open_failed_line, skip_line])
   \<and> (\<forall>fd content' markers'. fd \<noteq> 0 \<longrightarrow>
         marker_scan (Inl e) content markers \<noteq> marker_scan (Inr fd) content' markers')"
proof (intro conjI allI impI)
  show "marker_scan (Inl e) content markers = Inr [open_failed_line, skip_line]"
    by (simp add: marker_scan_def)
  show "filter (prefix SKIP_ICON) [open_failed_line, skip_line] = [skip_line]"
    by (simp add: skip_prefixes)
  show "marker_found_line m \<notin> set [open_failed_line, skip_line]" for m
    using skip_line_not_marker_line(1) [of m] open_failed_line_not_marker_line(1) [of m]
    by auto
  show "marker_not_found_line m \<notin> set [open_failed_line, skip_line]" for m
    using skip_line_not_marker_line(2) [of m] open_failed_line_not_marker_line(2) [of m]
    by auto
  show "marker_scan (Inl e) content markers \<noteq> marker_scan (Inr fd) content' markers'"
    if "fd \<noteq> 0" for fd content' markers'
  proof (cases "content' = []")
    case True
    with that show ?thesis by (simp add: marker_scan_def)
  next
    case False
    have "skip_line \<in> set [open_failed_line, skip_line]" by simp
    then have "[open_failed_line, skip_line] \<noteq> marker_loop markers' content'"
      using skip_line_notin_marker_loop [of markers' content'] by metis
    with that False show ?thesis by (simp add: marker_scan_def)
  qed
qed

theorem unreadable_executable_skipped_witness:
  "(3::nat) \<noteq> 0 \<and> marker_scan (Inl OSError) ''ELF'' MARKERS
       \<noteq> marker_scan (Inr 3) ''ELF'' MARKERS"
proof -
  have "(3::nat) \<noteq> 0" by simp
  then show ?thesis
    using unreadable_executable_skipped [of OSError "''ELF''" MARKERS] by blast
qed

section \<open>Behaviour of the script on the inputs of the specification\<close>

lemma parse_loop_Nil: "parse_loop cc res [] = Inr (res, [])"
  by (simp add: parse_loop.simps readline_def py_split_def)

lemma parse_loop_Cons:
  "parse_loop cc res (l # ls) =
     (let columns = py_split l
      in if length columns \<le> 1 then Inr (res, ls)
         else
           let irq_name = strip_colon (hd columns)
           in if irq_name = ''ERR'' \<or> irq_name = ''MIS'' then parse_loop cc res ls
              else
                (case int_list (slice 1 cc columns) of
                   Inl e \<Rightarrow> Inl e
                 | Inr irqs_per_cpu \<Rightarrow> parse_loop cc (dict_set res irq_name irqs_per_cpu) ls))"
  by (subst parse_loop.simps) (simp add: readline_def)

text \<open>
  Claim C1. The specification expects the load \<open>[100, 0, 50]\<close> for the table with the
  header \<^verbatim>\<open>CPU0 CPU1 CPU2\<close> and the lines \<^verbatim>\<open>16: 100 0 0 ...\<close>, \<^verbatim>\<open>17: 0 0 50 ...\<close>
  and \<^verbatim>\<open>ERR: 3\<close>. The script, run with three processors, computes \<open>[100, 0, 0]\<close>:
  the slice \<^verbatim>\<open>columns[1:cpu_count]\<close> holds two columns, so the count of the last
  processor is never read and line 17 counts as all zero.
\<close>

theorem end_to_end_scenario:
  "exclusive_load 3 [''CPU0 CPU1 CPU2'', ''16: 100 0 0 ...'', ''17: 0 0 50 ...'', ''ERR: 3'']
     = Inr [100, 0, 0]"
  by code_simp

text \<open>Whatever number of processors the script is run with, the load is not the
  expected one.\<close>

lemma parsed_scenario:
  "get_irq_statistics [''CPU0 CPU1 CPU2'', ''16: 100 0 0 ...'', ''17: 0 0 50 ...'', ''ERR: 3'']
     = Inr [(''16'', [100, 0]), (''17'', [0, 0])]"
  by code_simp

lemma end_to_end_never_expected:
  "exclusive_load n [''CPU0 CPU1 CPU2'', ''16: 100 0 0 ...'', ''17: 0 0 50 ...'', ''ERR: 3'']
     \<noteq> Inr [100, 0, 50]"
proof (cases "n = 0")
  case True
  then show ?thesis
    by (simp add: exclusive_load_def parsed_scenario aggregate_def aggregate_step_def
        count_nonzero_values_def get_nonzero_index_def)
next
  case False
  then have "exclusive_load n
      [''CPU0 CPU1 CPU2'', ''16: 100 0 0 ...'', ''17: 0 0 50 ...'', ''ERR: 3'']
     = Inr ((replicate n 0)[0 := 100])"
    by (simp add: exclusive_load_def parsed_scenario aggregate_def aggregate_step_def
        count_nonzero_values_def get_nonzero_index_def)
  moreover have "(replicate n 0)[0 := 100] \<noteq> [100, 0, 50 :: int]"
  proof
    assume eq: "(replicate n 0)[0 := 100] = [100, 0, 50 :: int]"
    then have "length ((replicate n 0)[0 := 100 :: int]) = 3" by simp
    then have n: "n = 3" by simp
    have "(replicate 3 0)[0 := 100] = [100, 0, 0 :: int]" by (simp add: numeral_3_eq_3)
    with eq n show False by simp
  qed
  ultimately show ?thesis by simp
qed

text \<open>
  Claim C2. The specification expects every stored count sequence to have as many
  entries as the header has labels, and the table \<open>{"5": [10, 0]}\<close> for the header
  \<^verbatim>\<open>CPU0 CPU1\<close> and the line \<^verbatim>\<open>5: 10 0 IO-APIC ...\<close>. The script stores \<open>[10]\<close>, one
  entry for two processors.
\<close>

theorem header_two_cpus_table:
  "get_irq_statistics [''CPU0 CPU1'', ''5: 10 0 IO-APIC ...''] = Inr [(''5'', [10])]"
  by code_simp

section \<open>Behaviour of \<^verbatim>\<open>read_one_line\<close>\<close>

lemma read_one_line_error: "fs path = Inl err \<Longrightarrow> read_one_line fs path = Inl NameError"
  by (simp add: read_one_line_def)

lemma read_one_line_success:
  "fs path = Inr f \<Longrightarrow> read_one_line fs path = Inr (Some (py_strip (fst (readline f))))"
  by (simp add: read_one_line_def)

lemma read_one_line_never_None: "read_one_line fs path \<noteq> Inr None"
  by (simp add: read_one_line_def split: sum.splits)

text \<open>
  Claim C9. The comment above \<^verbatim>\<open>read_one_line\<close> promises \<^verbatim>\<open>None\<close> when an error
  occurred. On a file system where the path cannot be opened the function raises
  \<^verbatim>\<open>NameError\<close> instead.
\<close>

theorem read_one_line_missing_file:
  "read_one_line (\<lambda>path. Inl OSError) ''/proc/1/cmdline'' = Inl NameError"
  by (simp add: read_one_line_def)

section \<open>Properties of the parsing loop\<close>

lemma parse_loop_append:
  "\<forall>l \<in> set pre. 1 < length (py_split l) \<Longrightarrow>
     parse_loop cc res (pre @ rest)
       = (case parse_loop cc res pre of Inl e \<Rightarrow> Inl e | Inr (r, f) \<Rightarrow> parse_loop cc r rest)"
proof (induction pre arbitrary: res)
  case Nil
  then show ?case by (simp add: parse_loop_Nil)
next
  case (Cons l ls)
  then have long: "\<not> length (py_split l) \<le> 1" and rest: "\<forall>l \<in> set ls. 1 < length (py_split l)"
    by auto
  show ?case
    using long Cons.IH [OF rest]
    by (simp add: parse_loop_Cons Let_def split: sum.splits)
qed

lemma py_int_error: "py_int x = Inl e \<Longrightarrow> e = ValueError"
  by (auto simp: py_int_def Let_def split: list.splits if_splits option.splits)

lemma int_list_error: "int_list xs = Inl e \<Longrightarrow> e = ValueError"
  by (induction xs) (auto split: sum.splits dest: py_int_error)

lemma int_list_fails: "x \<in> set xs \<Longrightarrow> py_int x = Inl e \<Longrightarrow> int_list xs = Inl ValueError"
proof (induction xs)
  case Nil
  then show ?case by simp
next
  case (Cons y ys)
  then show ?case
    by (auto split: sum.splits dest: py_int_error int_list_error)
qed

lemma int_list_length: "int_list xs = Inr ns \<Longrightarrow> length ns = length xs"
  by (induction xs arbitrary: ns) (auto split: sum.splits)

lemma parse_loop_error: "parse_loop cc res f = Inl e \<Longrightarrow> e = ValueError"
proof (induction f arbitrary: res)
  case Nil
  then show ?case by (simp add: parse_loop_Nil)
next
  case (Cons l ls)
  then show ?case
    by (auto simp: parse_loop_Cons Let_def split: if_splits sum.splits dest: int_list_error)
qed

lemma set_dict_set: "set (dict_set t k v) \<subseteq> insert (k, v) (set t)"
  by (induction t) (auto split: if_splits)

text \<open>A property of count sequences that holds for the sequences in the table at the
  start and for every sequence that a line of the file yields, holds for the table
  that the loop returns.\<close>

lemma parse_loop_invariant:
  assumes "parse_loop cc res f = Inr (tbl, f')"
    and "\<forall>l \<in> set f. \<forall>v. int_list (slice 1 cc (py_split l)) = Inr v \<longrightarrow> P v"
    and "\<forall>(irq, vec) \<in> set res. P vec"
  shows "\<forall>(irq, vec) \<in> set tbl. P vec"
  using assms
proof (induction f arbitrary: res)
  case Nil
  then show ?case by (simp add: parse_loop_Nil)
next
  case (Cons l ls)
  let ?cols = "py_split l"
  let ?name = "strip_colon (hd ?cols)"
  have tail: "\<forall>l \<in> set ls. \<forall>v. int_list (slice 1 cc (py_split l)) = Inr v \<longrightarrow> P v"
    using Cons.prems(2) by simp
  show ?case
  proof (cases "length ?cols \<le> 1")
    case True
    with Cons.prems(1) have "tbl = res" by (simp add: parse_loop_Cons)
    with Cons.prems(3) show ?thesis by simp
  next
    case long: False
    show ?thesis
    proof (cases "?name = ''ERR'' \<or> ?name = ''MIS''")
      case True
      with long Cons.prems(1) have "parse_loop cc res ls = Inr (tbl, f')"
        by (simp add: parse_loop_Cons Let_def)
      from Cons.IH [OF this tail Cons.prems(3)] show ?thesis .
    next
      case False
      with long Cons.prems(1) obtain v where
        v: "int_list (slice 1 cc ?cols) = Inr v"
        and rec: "parse_loop cc (dict_set res ?name v) ls = Inr (tbl, f')"
        by (auto simp: parse_loop_Cons Let_def split: sum.splits)
      have "P v" using v Cons.prems(2) by simp
      then have "\<forall>(irq, vec) \<in> set (dict_set res ?name v). P vec"
        using Cons.prems(3) set_dict_set [of res ?name v] by fastforce
      from Cons.IH [OF rec tail this] show ?thesis .
    qed
  qed
qed

text \<open>The stored sequences are shorter than the header: with at least one label in the
  header, no sequence in the returned table has \<open>cpu_count\<close> entries.\<close>

lemma stored_length_below_cpu_count:
  assumes "get_irq_statistics (header # body) = Inr tbl" and "py_split header \<noteq> []"
    and "(irq, vec) \<in> set tbl"
  shows "length vec < length (py_split header)"
proof -
  let ?cc = "length (py_split header)"
  from assms(1) obtain f' where p: "parse_loop ?cc [] body = Inr (tbl, f')"
    by (auto simp: get_irq_statistics_def readline_def split: sum.splits)
  have "\<forall>l \<in> set body. \<forall>v. int_list (slice 1 ?cc (py_split l)) = Inr v \<longrightarrow> length v < ?cc"
  proof (intro ballI allI impI)
    fix l v assume "int_list (slice 1 ?cc (py_split l)) = Inr v"
    then have "length v = length (slice 1 ?cc (py_split l))" by (rule int_list_length)
    also have "\<dots> \<le> ?cc - 1" by (simp add: slice_def)
    also have "\<dots> < ?cc" using assms(2) by (cases "py_split header") simp_all
    finally show "length v < ?cc" .
  qed
  from parse_loop_invariant [OF p this] assms(3) show ?thesis by auto
qed

text \<open>The loop only reads forward: the file it leaves is an end piece of the file it
  was given.\<close>

lemma parse_loop_rest_suffix: "parse_loop cc res f = Inr (tbl, f') \<Longrightarrow> suffix f' f"
proof (induction f arbitrary: res)
  case Nil
  then show ?case by (simp add: parse_loop_Nil)
next
  case (Cons l ls)
  then show ?case
    by (auto simp: parse_loop_Cons Let_def suffix_Cons split: if_splits sum.splits)
qed

lemma parse_loop_bad_line:
  assumes "1 < length (py_split line)"
    and "strip_colon (hd (py_split line)) \<noteq> ''ERR''"
    and "strip_colon (hd (py_split line)) \<noteq> ''MIS''"
    and "x \<in> set (slice 1 cc (py_split line))" and "py_int x = Inl e"
  shows "parse_loop cc res (line # post) = Inl ValueError"
  using assms int_list_fails [OF assms(4) assms(5)]
  by (simp add: parse_loop_Cons Let_def)

text \<open>
  A column that \<^verbatim>\<open>int\<close> rejects raises \<^verbatim>\<open>ValueError\<close> out of
  \<^verbatim>\<open>get_irq_statistics\<close> when it lies inside the slice \<^verbatim>\<open>columns[1:cpu_count]\<close> of a
  line that the loop reaches and that is not named \<^verbatim>\<open>ERR\<close> or \<^verbatim>\<open>MIS\<close>.
\<close>

lemma non_numeric_in_slice_raises:
  assumes "\<forall>l \<in> set pre. 1 < length (py_split l)"
    and "1 < length (py_split line)"
    and "strip_colon (hd (py_split line)) \<noteq> ''ERR''"
    and "strip_colon (hd (py_split line)) \<noteq> ''MIS''"
    and "x \<in> set (slice 1 (length (py_split header)) (py_split line))"
    and "py_int x = Inl e"
  shows "get_irq_statistics (header # pre @ line # post) = Inl ValueError"
proof -
  let ?cc = "length (py_split header)"
  have bad: "parse_loop ?cc r (line # post) = Inl ValueError" for r
    using assms(2-6) by (rule parse_loop_bad_line)
  have "parse_loop ?cc [] (pre @ line # post) = Inl ValueError"
  proof (cases "parse_loop ?cc [] pre")
    case (Inl e')
    then have "e' = ValueError" by (rule parse_loop_error)
    with Inl show ?thesis using parse_loop_append [OF assms(1)] by simp
  next
    case (Inr p)
    then show ?thesis using parse_loop_append [OF assms(1)] bad by (cases p) simp
  qed
  then show ?thesis by (simp add: get_irq_statistics_def readline_def)
qed

lemma non_numeric_in_slice_example:
  "get_irq_statistics [''CPU0 CPU1 CPU2'', ''0: 12 0 0 IO-APIC 2-edge timer'',
      ''8: 1 x 0 IO-APIC 8-edge rtc0'', ''9: 0 0 0 IO-APIC 9-fasteoi acpi''] = Inl ValueError"
  by code_simp

text \<open>
  Claim C5. The specification wants a parse failure for every count column that is not
  an integer, and no table entry that silently drops the field. The count of the last
  processor lies outside the slice \<^verbatim>\<open>columns[1:cpu_count]\<close>: for the header
  \<^verbatim>\<open>CPU0 CPU1\<close> and the line \<^verbatim>\<open>5: 10 x IO-APIC ...\<close> the script raises nothing and
  stores \<open>[10]\<close>.
\<close>

theorem non_numeric_last_column_dropped:
  "py_int ''x'' = Inl ValueError
   \<and> get_irq_statistics [''CPU0 CPU1'', ''5: 10 x IO-APIC ...''] = Inr [(''5'', [10])]"
  by code_simp

text \<open>
  Claim C6. The loop ends on every file: \<open>parse_loop\<close> is a total function, and the
  measure of its termination proof is the number of lines not read yet. At a line with
  at most one column, and at the end of the file, it returns the table without an
  error and leaves the lines behind it unread. So with lines \<open>pre\<close> of two or more
  columns before the first such line \<open>s\<close>, the result is the one for the file that ends
  after \<open>pre\<close> (an error only if a line of \<open>pre\<close> raised it), and the lines \<open>post\<close>
  are those left in the file.
\<close>

theorem parse_loop_stops_at_short_line:
  assumes "\<forall>l \<in> set pre. 1 < length (py_split l)" and "length (py_split s) \<le> 1"
  shows "parse_loop cc res (s # post) = Inr (res, post)
    \<and> parse_loop cc res [] = Inr (res, [])
    \<and> parse_loop cc res (pre @ s # post)
        = (case parse_loop cc res pre of Inl e \<Rightarrow> Inl e | Inr (r, f) \<Rightarrow> Inr (r, post))
    \<and> get_irq_statistics (header # pre @ s # post) = get_irq_statistics (header # pre)"
proof -
  have stop: "parse_loop cc' r (s # post) = Inr (r, post)" for cc' r
    using assms(2) by (simp add: parse_loop_Cons)
  have app: "parse_loop cc' res' (pre @ s # post)
        = (case parse_loop cc' res' pre of Inl e \<Rightarrow> Inl e | Inr (r, f) \<Rightarrow> Inr (r, post))"
    for cc' res'
    using parse_loop_append [OF assms(1), of cc' res' "s # post"] stop
    by (simp split: sum.splits)
  have "get_irq_statistics (header # pre @ s # post) = get_irq_statistics (header # pre)"
    by (simp add: get_irq_statistics_def readline_def app split: sum.splits)
  with stop app show ?thesis by (simp add: parse_loop_Nil)
qed

theorem parse_loop_stops_at_short_line_witness:
  "parse_loop 3 [] [''5: 10 0 7 IO-APIC'', ''8: 0 1 0 IO-APIC'', ''NMI:'', ''9: x y z'']
     = Inr ([(''5'', [10, 0]), (''8'', [0, 1])], [''9: x y z''])"
proof -
  have 1: "\<forall>l \<in> set [''5: 10 0 7 IO-APIC'', ''8: 0 1 0 IO-APIC'']. 1 < length (py_split l)"
    by (simp add: py_split_def is_space_def)
  have 2: "length (py_split ''NMI:'') \<le> 1"
    by (simp add: py_split_def is_space_def)
  have 3: "parse_loop 3 [] [''5: 10 0 7 IO-APIC'', ''8: 0 1 0 IO-APIC'']
     = Inr ([(''5'', [10, 0]), (''8'', [0, 1])], [])"
    by code_simp
  show ?thesis
    using parse_loop_stops_at_short_line [OF 1 2, of 3 "[]" "[''9: x y z'']" "''CPU0 CPU1 CPU2''"] 3
    by simp
qed

section \<open>The sign of the stored counts\<close>

lemma set_strip_where: "set (strip_where P s) \<subseteq> set s"
proof -
  have "set (dropWhile P (rev (dropWhile P s))) \<subseteq> set (rev (dropWhile P s))"
    by (auto dest: set_dropWhileD)
  also have "\<dots> \<subseteq> set s" by (auto dest: set_dropWhileD)
  finally show ?thesis by (simp add: strip_where_def)
qed

lemma py_int_nonneg:
  assumes "py_int x = Inr n" "CHR ''-'' \<notin> set x"
  shows "0 \<le> n"
proof -
  have "CHR ''-'' \<notin> set (strip_where is_int_space x)"
    using assms(2) set_strip_where [of is_int_space x] by auto
  then show ?thesis
    using assms(1)
    by (auto simp: py_int_def Let_def split: list.splits if_splits option.splits)
qed

lemma int_list_nonneg:
  "int_list xs = Inr ns \<Longrightarrow> \<forall>x \<in> set xs. CHR ''-'' \<notin> set x \<Longrightarrow> \<forall>n \<in> set ns. 0 \<le> n"
proof (induction xs arbitrary: ns)
  case Nil
  then show ?case by simp
next
  case (Cons x xs)
  then show ?case
    by (auto split: sum.splits dest: py_int_nonneg)
qed

lemma parse_loop_nonneg:
  assumes "parse_loop cc res f = Inr (tbl, f')"
    and "\<forall>l \<in> set f. \<forall>x \<in> set (slice 1 cc (py_split l)). CHR ''-'' \<notin> set x"
    and "\<forall>(irq, vec) \<in> set res. \<forall>n \<in> set vec. 0 \<le> n"
  shows "\<forall>(irq, vec) \<in> set tbl. \<forall>n \<in> set vec. 0 \<le> n"
proof -
  have "\<forall>l \<in> set f. \<forall>v. int_list (slice 1 cc (py_split l)) = Inr v \<longrightarrow> (\<forall>n \<in> set v. 0 \<le> n)"
    using assms(2) int_list_nonneg by blast
  from parse_loop_invariant [OF assms(1), of "\<lambda>v. \<forall>n \<in> set v. 0 \<le> n", OF this assms(3)]
  show ?thesis .
qed

text \<open>
  Claim C8, as amended. Every stored count is the value that \<^verbatim>\<open>int\<close> gives for its
  column. When no column inside the slice \<^verbatim>\<open>columns[1:cpu_count]\<close> of any line
  holds a minus sign, every count in the returned table is at least 0.
\<close>

theorem unsigned_counts_nonnegative:
  assumes "get_irq_statistics (header # body) = Inr tbl"
    and "\<forall>l \<in> set body. \<forall>x \<in> set (slice 1 (length (py_split header)) (py_split l)).
           CHR ''-'' \<notin> set x"
    and "(irq, vec) \<in> set tbl" and "n \<in> set vec"
  shows "0 \<le> n"
proof -
  from assms(1) obtain f' where
    "parse_loop (length (py_split header)) [] body = Inr (tbl, f')"
    by (auto simp: get_irq_statistics_def readline_def split: sum.splits)
  from parse_loop_nonneg [OF this assms(2)] assms(3,4) show ?thesis by auto
qed

theorem unsigned_counts_nonnegative_witness:
  "get_irq_statistics [''CPU0 CPU1 CPU2'', ''16: 100 0 0 IO-APIC 16-fasteoi ehci'']
      = Inr [(''16'', [100, 0])] \<and> (0::int) \<le> 100"
proof -
  have 1: "get_irq_statistics [''CPU0 CPU1 CPU2'', ''16: 100 0 0 IO-APIC 16-fasteoi ehci'']
      = Inr [(''16'', [100, 0])]"
    by code_simp
  have 2: "\<forall>l \<in> set [''16: 100 0 0 IO-APIC 16-fasteoi ehci''].
      \<forall>x \<in> set (slice 1 (length (py_split ''CPU0 CPU1 CPU2'')) (py_split l)).
           CHR ''-'' \<notin> set x"
    by (simp add: py_split_def is_space_def slice_def)
  have 3: "(''16'', [100, 0]) \<in> set [(''16'', [100, 0 :: int])]" by simp
  have 4: "(100::int) \<in> set [100, 0]" by simp
  from unsigned_counts_nonnegative [OF 1 2 3 4] 1 show ?thesis by simp
qed

text \<open>
  Claim C8, as stated, fails: \<^verbatim>\<open>int\<close> accepts a sign, so the column \<^verbatim>\<open>-3\<close> is
  parsed and the table holds the count \<open>-3\<close>.
\<close>

theorem negative_count_stored:
  "get_irq_statistics [''CPU0 CPU1'', ''5: -3 0 IO-APIC ...''] = Inr [(''5'', [- 3])]
   \<and> \<not> 0 \<le> (- 3 :: int)"
  by code_simp

section \<open>Properties of the aggregation\<close>

lemma aggregate_step_exclusive:
  assumes "length (filter (\<lambda>x. x \<noteq> 0) vec) = 1" "i < length vec" "vec ! i \<noteq> 0"
    "i < length load"
  shows "aggregate_step load vec = Inr (load[i := load ! i + vec ! i])"
proof -
  have c: "count_nonzero_values vec = 1"
    using assms(1) by (simp add: count_nonzero_values_filter)
  from exclusive_has_index [OF c] obtain k where
    k: "get_nonzero_index vec = Some k" "k < length vec" "vec ! k \<noteq> 0" by auto
  have "k = i"
    using exclusive_index_unique [of "\<lambda>x. x \<noteq> 0" vec k i] assms k by simp
  with c k assms show ?thesis by (simp add: aggregate_step_def)
qed

lemma aggregate_step_not_exclusive:
  "length (filter (\<lambda>x. x \<noteq> 0) vec) \<noteq> 1 \<Longrightarrow> aggregate_step load vec = Inr load"
  by (simp add: aggregate_step_def count_nonzero_values_filter)

lemma aggregate_step_out_of_range:
  assumes "length (filter (\<lambda>x. x \<noteq> 0) vec) = 1" "i < length vec" "vec ! i \<noteq> 0"
    "length load \<le> i"
  shows "aggregate_step load vec = Inl IndexError"
proof -
  have c: "count_nonzero_values vec = 1"
    using assms(1) by (simp add: count_nonzero_values_filter)
  from exclusive_has_index [OF c] obtain k where
    k: "get_nonzero_index vec = Some k" "k < length vec" "vec ! k \<noteq> 0" by auto
  have "k = i"
    using exclusive_index_unique [of "\<lambda>x. x \<noteq> 0" vec k i] assms k by simp
  with c k assms show ?thesis by (simp add: aggregate_step_def)
qed

text \<open>
  Claim C4. One pass of the aggregation loop, for the count sequence \<open>vec\<close> of one key:
  when exactly one entry of \<open>vec\<close> is not zero, at index \<open>i\<close>, and the load array has
  a slot \<open>i\<close>, the entry is added to that slot and no other slot changes; when no entry
  or more than one entry is not zero, the load array stays as it is.
\<close>

theorem exclusive_line_contribution:
  "(length (filter (\<lambda>x. x \<noteq> 0) vec) = 1 \<and> i < length vec \<and> vec ! i \<noteq> 0 \<and> i < length load
      \<longrightarrow> aggregate_step load vec = Inr (load[i := load ! i + vec ! i])
          \<and> aggregate_loop load ((irq, vec) # irqs)
              = aggregate_loop (load[i := load ! i + vec ! i]) irqs)
   \<and> (length (filter (\<lambda>x. x \<noteq> 0) vec) \<noteq> 1
      \<longrightarrow> aggregate_step load vec = Inr load
          \<and> aggregate_loop load ((irq, vec) # irqs) = aggregate_loop load irqs)"
proof (intro conjI impI)
  assume a: "length (filter (\<lambda>x. x \<noteq> 0) vec) = 1 \<and> i < length vec \<and> vec ! i \<noteq> 0
    \<and> i < length load"
  then have step: "aggregate_step load vec = Inr (load[i := load ! i + vec ! i])"
    by (simp add: aggregate_step_exclusive)
  then show "aggregate_step load vec = Inr (load[i := load ! i + vec ! i])" .
  from step show "aggregate_loop load ((irq, vec) # irqs)
      = aggregate_loop (load[i := load ! i + vec ! i]) irqs" by simp
next
  assume a: "length (filter (\<lambda>x. x \<noteq> 0) vec) \<noteq> 1"
  then have step: "aggregate_step load vec = Inr load"
    by (rule aggregate_step_not_exclusive)
  then show "aggregate_step load vec = Inr load" .
  from step show "aggregate_loop load ((irq, vec) # irqs) = aggregate_loop load irqs"
    by simp
qed

theorem exclusive_line_contribution_witness:
  "aggregate_step [1, 2, 3] [0, 7, 0] = Inr [1, 9, 3]
   \<and> aggregate_step [1, 2, 3] [3, 4, 0] = Inr [1, 2, 3]
   \<and> aggregate_step [1, 2, 3] [0, 0, 0] = Inr [1, 2, 3]"
  using exclusive_line_contribution [of "[0, 7, 0]" 1 "[1, 2, 3]" "''16''" "[]"]
    exclusive_line_contribution [of "[3, 4, 0]" 0 "[1, 2, 3]" "''17''" "[]"]
    exclusive_line_contribution [of "[0, 0, 0]" 0 "[1, 2, 3]" "''18''" "[]"]
  by simp

text \<open>
  The whole loop: when no count sequence is longer than the load array, the loop ends
  without an error, and slot \<open>k\<close> holds the sum of the entries \<open>vec ! k\<close> of the
  sequences whose only nonzero entry is at \<open>k\<close>.
\<close>

lemma aggregate_step_length:
  "aggregate_step load vec = Inr load' \<Longrightarrow> length load' = length load"
  by (auto simp: aggregate_step_def split: if_splits option.splits)

lemma aggregate_step_slot:
  assumes "length vec \<le> length load"
  shows "\<exists>load'. aggregate_step load vec = Inr load' \<and> length load' = length load
    \<and> (\<forall>k < length load. load' ! k = load ! k
          + (if length (filter (\<lambda>x. x \<noteq> 0) vec) = 1 \<and> k < length vec \<and> vec ! k \<noteq> 0
             then vec ! k else 0))"
proof (cases "length (filter (\<lambda>x. x \<noteq> 0) vec) = 1")
  case False
  then show ?thesis by (simp add: aggregate_step_not_exclusive)
next
  case True
  then have c: "count_nonzero_values vec = 1" by (simp add: count_nonzero_values_filter)
  from exclusive_has_index [OF c] obtain i where
    i: "get_nonzero_index vec = Some i" "i < length vec" "vec ! i \<noteq> 0" by auto
  have step: "aggregate_step load vec = Inr (load[i := load ! i + vec ! i])"
    using True i assms by (intro aggregate_step_exclusive) auto
  have "(load[i := load ! i + vec ! i]) ! k = load ! k
          + (if length (filter (\<lambda>x. x \<noteq> 0) vec) = 1 \<and> k < length vec \<and> vec ! k \<noteq> 0
             then vec ! k else 0)" if k: "k < length load" for k
  proof (cases "k = i")
    case True
    with i k show ?thesis using \<open>length (filter (\<lambda>x. x \<noteq> 0) vec) = 1\<close> by simp
  next
    case ne: False
    have "\<not> (k < length vec \<and> vec ! k \<noteq> 0)"
      using exclusive_index_unique [of "\<lambda>x. x \<noteq> 0" vec k i] True i ne by auto
    with ne show ?thesis by auto
  qed
  with step show ?thesis by simp
qed

lemma aggregate_loop_slots:
  assumes "\<forall>(irq, vec) \<in> set irqs. length vec \<le> length load"
  shows "\<exists>L. aggregate_loop load irqs = Inr L \<and> length L = length load
    \<and> (\<forall>k < length load. L ! k = load ! k
          + (\<Sum>(irq, vec) \<leftarrow> irqs.
               if length (filter (\<lambda>x. x \<noteq> 0) vec) = 1 \<and> k < length vec \<and> vec ! k \<noteq> 0
               then vec ! k else 0))"
  using assms
proof (induction irqs arbitrary: load)
  case Nil
  then show ?case by simp
next
  case (Cons p irqs)
  obtain irq vec where p: "p = (irq, vec)" by (cases p)
  with Cons.prems have len: "length vec \<le> length load" by simp
  from aggregate_step_slot [OF len] obtain load' where
    step: "aggregate_step load vec = Inr load'" and l': "length load' = length load"
    and slots: "\<forall>k < length load. load' ! k = load ! k
          + (if length (filter (\<lambda>x. x \<noteq> 0) vec) = 1 \<and> k < length vec \<and> vec ! k \<noteq> 0
             then vec ! k else 0)"
    by blast
  have "\<forall>(irq, vec) \<in> set irqs. length vec \<le> length load'"
    using Cons.prems l' by auto
  from Cons.IH [OF this] obtain L where
    L: "aggregate_loop load' irqs = Inr L" "length L = length load'"
    and Ls: "\<forall>k < length load'. L ! k = load' ! k
          + (\<Sum>(irq, vec) \<leftarrow> irqs.
               if length (filter (\<lambda>x. x \<noteq> 0) vec) = 1 \<and> k < length vec \<and> vec ! k \<noteq> 0
               then vec ! k else 0)"
    by blast
  have "aggregate_loop load (p # irqs) = Inr L" using p step L(1) by simp
  moreover have "length L = length load" using L(2) l' by simp
  moreover have "\<forall>k < length load. L ! k = load ! k
          + (\<Sum>(irq, vec) \<leftarrow> p # irqs.
               if length (filter (\<lambda>x. x \<noteq> 0) vec) = 1 \<and> k < length vec \<and> vec ! k \<noteq> 0
               then vec ! k else 0)"
    using Ls slots l' p by (simp add: add.assoc)
  ultimately show ?case by blast
qed

lemma aggregate_slots:
  assumes "\<forall>(irq, vec) \<in> set irqs. length vec \<le> cpu_count"
  shows "\<exists>L. aggregate cpu_count irqs = Inr L \<and> length L = cpu_count
    \<and> (\<forall>k < cpu_count. L ! k =
          (\<Sum>(irq, vec) \<leftarrow> irqs.
               if length (filter (\<lambda>x. x \<noteq> 0) vec) = 1 \<and> k < length vec \<and> vec ! k \<noteq> 0
               then vec ! k else 0))"
  using aggregate_loop_slots [of irqs "replicate cpu_count 0"] assms
  by (simp add: aggregate_def)

end
